theory Spec2Isabelle
  imports Complex_Main "HOL-Library.Multiset"
begin

section \<open>Python values, failures and sequence operations\<close>

text \<open>
  Exceptions are values: every operation that can raise returns \<open>error + 'a\<close>, with
  \<open>Inl\<close> the exception. \<open>EstimatorError\<close> stands for any failure inside the wrapped
  binary classifier, which the evaluation treats as an opaque collaborator.
\<close>

datatype error = AssertionError | IndexError | ValueError | EstimatorError

text \<open>Running a fallible function over a list stops at the first exception.\<close>

fun traverse :: "('a \<Rightarrow> error + 'b) \<Rightarrow> 'a list \<Rightarrow> error + 'b list" where
  "traverse f [] = Inr []"
| "traverse f (x # xs) =
     (case f x of
        Inl e \<Rightarrow> Inl e
      | Inr y \<Rightarrow> (case traverse f xs of Inl e \<Rightarrow> Inl e | Inr ys \<Rightarrow> Inr (y # ys)))"

text \<open>\<open>xs[i]\<close> and \<open>xs[i] = v\<close> for a non-negative index: out of range raises.\<close>

definition getitem :: "'a list \<Rightarrow> nat \<Rightarrow> error + 'a" where
  "getitem xs i = (if i < length xs then Inr (xs ! i) else Inl IndexError)"

definition setitem :: "'a list \<Rightarrow> nat \<Rightarrow> 'a \<Rightarrow> error + 'a list" where
  "setitem xs i v = (if i < length xs then Inr (xs[i := v]) else Inl IndexError)"

text \<open>
  The slice \<open>xs[s:]\<close> with a Python integer \<open>s\<close>: a negative start counts from the end
  and is clamped at the front; a start past the end gives the empty list.
\<close>

definition slice_from :: "'a list \<Rightarrow> int \<Rightarrow> 'a list" where
  "slice_from xs s =
     (if s < 0 then drop (nat (int (length xs) + s)) xs else drop (nat s) xs)"

text \<open>
  \<open>a.argsort()\<close>: the indices of \<open>a\<close> in ascending order of their values. The model
  is the stable insertion sort of the index range; the properties proved below use only
  that the result is a permutation of the indices in ascending order of value, so they
  hold for any tie-breaking.
\<close>

definition argsort :: "('p::linorder) list \<Rightarrow> nat list" where
  "argsort a = sort_key (\<lambda>j. a ! j) [0..<length a]"


section \<open>TopKRanker\<close>

text \<open>
  A fitted one-vs-rest classifier holds one binary estimator per class column; estimator
  \<open>c\<close> scores a feature row with the probability of class \<open>c\<close>, or fails. After fitting on
  an indicator matrix, \<open>classes_\<close> is the range of column indices.
\<close>

record ('x, 'p) TopKRanker =
  estimators :: "('x \<Rightarrow> 'p option) list"

definition classes :: "('x, 'p) TopKRanker \<Rightarrow> nat list" where
  "classes clf = [0..<length (estimators clf)]"

definition predict_binary :: "('x \<Rightarrow> 'p option) \<Rightarrow> 'x \<Rightarrow> error + 'p" where
  "predict_binary e x = (case e x of None \<Rightarrow> Inl EstimatorError | Some p \<Rightarrow> Inr p)"

definition predict_proba :: "('x, 'p) TopKRanker \<Rightarrow> 'x list \<Rightarrow> error + 'p list list" where
  "predict_proba clf X =
     traverse (\<lambda>x. traverse (\<lambda>e. predict_binary e x) (estimators clf)) X"

text \<open>The inner loop of \<open>predict\<close>: \<open>all_labels[i, label] = 1\<close> for each label.\<close>

fun mark_labels :: "int list \<Rightarrow> nat list \<Rightarrow> error + int list" where
  "mark_labels row [] = Inr row"
| "mark_labels row (label # labels) =
     (case setitem row label 1 of
        Inl e \<Rightarrow> Inl e
      | Inr row' \<Rightarrow> mark_labels row' labels)"

text \<open>
  One iteration of the outer loop of \<open>predict\<close>, for the probability row \<open>prow\<close>
  (\<open>probs_\<close> in the source) and the count \<open>k\<close>:
  \<open>labels = self.classes_[probs_.argsort()[-k:]].tolist()\<close>, then the marking of row \<open>i\<close>
  of \<open>all_labels\<close>, which starts as zeros of the width of \<open>probs\<close>.
\<close>

definition top_k_labels :: "nat list \<Rightarrow> ('p::linorder) list \<Rightarrow> int \<Rightarrow> error + nat list" where
  "top_k_labels cls prow k =
     traverse (getitem cls) (slice_from (argsort prow) (- k))"

definition label_row :: "nat list \<Rightarrow> ('p::linorder) list \<Rightarrow> int \<Rightarrow> error + int list" where
  "label_row cls prow k =
     (case top_k_labels cls prow k of
        Inl e \<Rightarrow> Inl e
      | Inr labels \<Rightarrow> mark_labels (replicate (length prow) 0) labels)"

definition predict ::
  "('x, 'p::linorder) TopKRanker \<Rightarrow> 'x list \<Rightarrow> int list \<Rightarrow> error + int list list" where
  "predict clf X top_k_list =
     (if length X \<noteq> length top_k_list then Inl AssertionError
      else
        (case predict_proba clf X of
           Inl e \<Rightarrow> Inl e
         | Inr probs \<Rightarrow>
             traverse
               (\<lambda>(i, k). case getitem probs i of
                            Inl e \<Rightarrow> Inl e
                          | Inr prow \<Rightarrow> label_row (classes clf) prow k)
               (enumerate 0 top_k_list)))"

text \<open>The number of classes marked positive in an indicator row.\<close>

definition positives :: "int list \<Rightarrow> nat" where
  "positives row = length (filter (\<lambda>v. v = 1) row)"

text \<open>The classes marked positive in an indicator row.\<close>

definition selected :: "int list \<Rightarrow> nat set" where
  "selected row = set (filter (\<lambda>c. row ! c = 1) [0..<length row])"

text \<open>
  A fitted classifier over three classes whose estimators read the three components of a
  feature row, and two feature rows for it.
\<close>

definition example_clf :: "(rat \<times> rat \<times> rat, rat) TopKRanker" where
  "example_clf =
     \<lparr>estimators = [\<lambda>(a, b, c). Some a, \<lambda>(a, b, c). Some b, \<lambda>(a, b, c). Some c]\<rparr>"

definition example_X :: "(rat \<times> rat \<times> rat) list" where
  "example_X = [(1/5, 7/10, 1/10), (3/10, 1/10, 3/5)]"



section \<open>Label matrix construction\<close>

text \<open>
  An index into an axis of length \<open>n\<close> as NumPy reads it: \<open>0 \<le> j < n\<close> is itself,
  \<open>-n \<le> j < 0\<close> counts from the end, anything else raises.
\<close>

definition wrap_index :: "nat \<Rightarrow> int \<Rightarrow> error + nat" where
  "wrap_index n j =
     (if 0 \<le> j \<and> j < int n then Inr (nat j)
      else if - int n \<le> j \<and> j < 0 then Inr (nat (int n + j))
      else Inl IndexError)"

definition zeros :: "nat \<Rightarrow> nat \<Rightarrow> ('a::zero) list list" where
  "zeros r c = replicate r (replicate c 0)"

text \<open>\<open>M[i, c] = 1\<close> on a matrix held as a list of rows, for indices in range.\<close>

definition assign_one :: "int list list \<Rightarrow> nat \<times> nat \<Rightarrow> int list list" where
  "assign_one M = (\<lambda>(i, c). M[i := (M ! i)[c := 1]])"

text \<open>
  The two shapes of dataset that \<open>__init__\<close> tells apart: a class index per node with the
  class count of the dataset, or a ready indicator matrix with its column count.
\<close>

datatype dataset_labels =
  SingleLabel "int list" nat
| MultiLabel "int list list" nat

record label_data =
  num_nodes :: nat
  num_classes :: nat
  label_matrix :: "int list list"

text \<open>
  The single-label branch: \<open>label_matrix = np.zeros((num_nodes, num_classes), dtype=int)\<close>,
  then \<open>label_matrix[range(num_nodes), y] = 1\<close>. The index arrays are checked before
  anything is written.
\<close>

definition one_hot_matrix :: "nat \<Rightarrow> int list \<Rightarrow> error + int list list" where
  "one_hot_matrix n_classes y =
     (case traverse (wrap_index n_classes) y of
        Inl e \<Rightarrow> Inl e
      | Inr cols \<Rightarrow>
          Inr (fold (\<lambda>p M. assign_one M p) (zip [0..<length y] cols)
                 (zeros (length y) n_classes)))"

definition init_labels :: "dataset_labels \<Rightarrow> error + label_data" where
  "init_labels d =
     (case d of
        SingleLabel y n_classes \<Rightarrow>
          (case one_hot_matrix n_classes y of
             Inl e \<Rightarrow> Inl e
           | Inr M \<Rightarrow> Inr \<lparr>num_nodes = length y, num_classes = n_classes, label_matrix = M\<rparr>)
      | MultiLabel y n_classes \<Rightarrow>
          Inr \<lparr>num_nodes = length y, num_classes = n_classes, label_matrix = y\<rparr>)"


section \<open>Embedding alignment\<close>

text \<open>
  \<open>G.add_edges_from\<close> on an empty graph: each edge adds its source, then its target,
  unless the node is already there; \<open>G.nodes()\<close> iterates in that insertion order.
\<close>

definition add_node :: "int list \<Rightarrow> int \<Rightarrow> int list" where
  "add_node ns v = (if v \<in> set ns then ns else ns @ [v])"

definition graph_nodes :: "(int \<times> int) list \<Rightarrow> int list" where
  "graph_nodes es = fold (\<lambda>(u, v) ns. add_node (add_node ns u) v) es []"

text \<open>A loop whose body can raise: the first exception ends it.\<close>

fun efold :: "('a \<Rightarrow> 's \<Rightarrow> error + 's) \<Rightarrow> 'a list \<Rightarrow> 's \<Rightarrow> error + 's" where
  "efold f [] s = Inr s"
| "efold f (x # xs) s = (case f x s of Inl e \<Rightarrow> Inl e | Inr s' \<Rightarrow> efold f xs s')"

text \<open>
  The value written by \<open>features_matrix[node] = v\<close> into a row of width \<open>hidden\<close>: a
  vector of that width as it is, a vector of width 1 repeated, any other width raises.
\<close>

definition broadcast_row :: "nat \<Rightarrow> 'a list \<Rightarrow> error + 'a list" where
  "broadcast_row hidden v =
     (if length v = hidden then Inr v
      else if length v = 1 then Inr (replicate hidden (v ! 0))
      else Inl ValueError)"

definition assign_embedding ::
  "nat \<Rightarrow> 'a list list \<Rightarrow> nat \<times> int \<Rightarrow> 'a list list \<Rightarrow> error + 'a list list" where
  "assign_embedding hidden embeddings = (\<lambda>(vid, node) F.
     (case getitem embeddings vid of
        Inl e \<Rightarrow> Inl e
      | Inr v \<Rightarrow>
          (case wrap_index (length F) node of
             Inl e \<Rightarrow> Inl e
           | Inr r \<Rightarrow>
               (case broadcast_row hidden v of
                  Inl e \<Rightarrow> Inl e
                | Inr row \<Rightarrow> Inr (F[r := row])))))"

text \<open>
  The alignment loop of \<open>train\<close>: \<open>features_matrix = np.zeros((num_nodes, hidden_size))\<close>,
  then \<open>features_matrix[node] = embeddings[vid]\<close> for each \<open>vid, node\<close> of
  \<open>enumerate(G.nodes())\<close>. The embeddings are what the model returned for \<open>G\<close>.
\<close>

definition align_embeddings ::
  "nat \<Rightarrow> nat \<Rightarrow> (int \<times> int) list \<Rightarrow> ('a::zero) list list \<Rightarrow> error + 'a list list" where
  "align_embeddings n_nodes hidden es embeddings =
     efold (assign_embedding hidden embeddings) (enumerate 0 (graph_nodes es))
       (zeros n_nodes hidden)"


section \<open>The evaluation driver\<close>

subsection \<open>Training fractions and the training size\<close>










subsection \<open>Shuffles\<close>

text \<open>
  \<open>sklearn.utils.shuffle(X, y)\<close>, from the documentation of scikit-learn: the arrays must
  have the same number of rows; one random permutation of the row indices is drawn and
  every array is indexed with it. The permutation drawn is the argument \<open>indices\<close>.
\<close>

definition skshuffle :: "nat list \<Rightarrow> 'x list \<Rightarrow> 'y list \<Rightarrow> error + ('x list \<times> 'y list)" where
  "skshuffle indices X y =
     (if length X \<noteq> length y then Inl ValueError
      else
        (case traverse (getitem X) indices of
           Inl e \<Rightarrow> Inl e
         | Inr X' \<Rightarrow>
             (case traverse (getitem y) indices of
                Inl e \<Rightarrow> Inl e
              | Inr y' \<Rightarrow> Inr (X', y'))))"

text \<open>
  The shuffle loop of \<open>_evaluate\<close>. \<open>draw j\<close> is the permutation that the random generator
  yields in the \<open>j\<close>-th call.
\<close>

definition make_shuffles ::
  "(nat \<Rightarrow> nat list) \<Rightarrow> 'x list \<Rightarrow> 'y list \<Rightarrow> int \<Rightarrow> error + ('x list \<times> 'y list) list" where
  "make_shuffles draw features_matrix label_matrix' n_shuffle =
     traverse (\<lambda>j. skshuffle (draw j) features_matrix label_matrix') [0..<nat n_shuffle]"

subsection \<open>One fit and predict cycle\<close>



subsection \<open>Accumulation and aggregation\<close>






subsection \<open>A scorer and a run\<close>



text \<open>
  A run on four nodes and three classes: the features of a node are its class scores, \<open>fit\<close>
  returns the classifier that reads them, and the generator alternates between two
  permutations.
\<close>

definition example_features :: "(rat \<times> rat \<times> rat) list" where
  "example_features =
     [(1/5, 7/10, 1/10), (3/10, 1/10, 3/5), (1/2, 1/4, 1/4), (1/10, 1/5, 7/10)]"

definition example_labels :: "int list list" where
  "example_labels = [[0, 1, 0], [1, 0, 1], [0, 1, 0], [0, 0, 1]]"


definition example_draw :: "nat \<Rightarrow> nat list" where
  "example_draw j = (if even j then [2, 0, 3, 1] else [1, 3, 0, 2])"


section \<open>Properties of the sequence operations\<close>

lemma traverse_Inr_iff:
  "traverse f xs = Inr ys \<longleftrightarrow>
     length ys = length xs \<and> (\<forall>i < length xs. f (xs ! i) = Inr (ys ! i))"
proof (induction xs arbitrary: ys)
  case Nil
  then show ?case by auto
next
  case (Cons x xs)
  show ?case
  proof (cases ys)
    case Nil
    then show ?thesis by (auto split: sum.splits)
  next
    case (Cons y ys')
    then show ?thesis
      using Cons.IH [of ys']
      by (auto split: sum.splits simp: nth_Cons split: nat.splits)
  qed
qed

lemma traverse_total:
  "(\<forall>x \<in> set xs. \<exists>y. f x = Inr y) \<Longrightarrow> \<exists>ys. traverse f xs = Inr ys"
  by (induction xs) (auto split: sum.splits)

lemma traverse_map:
  "(\<forall>x \<in> set xs. f x = Inr (g x)) \<Longrightarrow> traverse f xs = Inr (map g xs)"
  by (induction xs) auto

section \<open>Properties of \<open>TopKRanker.predict\<close>\<close>

lemma set_argsort: "set (argsort a) = {0..<length a}"
  by (simp add: argsort_def)

lemma distinct_argsort: "distinct (argsort a)"
  by (simp add: argsort_def)

lemma length_argsort: "length (argsort a) = length a"
  by (simp add: argsort_def)

lemma sorted_argsort: "sorted (map (\<lambda>j. a ! j) (argsort a))"
  by (simp add: argsort_def)

lemma set_slice_from: "set (slice_from xs s) \<subseteq> set xs"
  by (auto simp: slice_from_def dest: in_set_dropD)

lemma distinct_slice_from: "distinct xs \<Longrightarrow> distinct (slice_from xs s)"
  by (simp add: slice_from_def)

lemma slice_from_zero: "slice_from xs 0 = xs"
  by (simp add: slice_from_def)

lemma length_slice_last:
  "0 < k \<Longrightarrow> length (slice_from xs (- k)) = min (length xs) (nat k)"
  by (auto simp: slice_from_def)

lemma slice_from_split: "\<exists>ys. xs = ys @ slice_from xs s"
proof (cases "s < 0")
  case True
  have "xs = take (nat (int (length xs) + s)) xs @ slice_from xs s"
    using True by (simp add: slice_from_def)
  then show ?thesis ..
next
  case False
  have "xs = take (nat s) xs @ slice_from xs s"
    using False by (simp add: slice_from_def)
  then show ?thesis ..
qed

lemma getitem_upt: "j < n \<Longrightarrow> getitem [0..<n] j = Inr j"
  by (simp add: getitem_def)

lemma top_k_labels_range:
  "length prow = n \<Longrightarrow> top_k_labels [0..<n] prow k = Inr (slice_from (argsort prow) (- k))"
  unfolding top_k_labels_def
  using set_slice_from [of "argsort prow" "- k"]
  by (intro traverse_map [where g = "\<lambda>j. j", simplified]) (auto simp: set_argsort getitem_upt)

lemma mark_labels_Inr:
  "\<forall>l \<in> set labels. l < length row \<Longrightarrow>
   mark_labels row labels = Inr (map (\<lambda>c. if c \<in> set labels then 1 else row ! c) [0..<length row])"
proof (induction labels arbitrary: row)
  case Nil
  then show ?case by (simp add: map_nth)
next
  case (Cons l ls)
  then show ?case
    by (auto simp: setitem_def nth_list_update)
qed

lemma label_row_range:
  assumes "length prow = n"
  shows "label_row [0..<n] prow k =
     Inr (map (\<lambda>c. if c \<in> set (slice_from (argsort prow) (- k)) then 1 else 0) [0..<n])"
proof -
  have "\<forall>l \<in> set (slice_from (argsort prow) (- k)). l < length (replicate n (0::int))"
    using set_slice_from [of "argsort prow" "- k"] assms by (auto simp: set_argsort)
  from mark_labels_Inr [OF this] show ?thesis
    using assms by (simp add: label_row_def top_k_labels_range cong: map_cong)
qed

lemma predict_proba_shape:
  assumes "predict_proba clf X = Inr probs"
  shows "length probs = length X"
    and "i < length X \<Longrightarrow> length (probs ! i) = length (estimators clf)"
  using assms by (auto simp: predict_proba_def traverse_Inr_iff)

lemma predict_rows:
  assumes "predict clf X top_k_list = Inr out"
  shows "length X = length top_k_list"
    and "length out = length top_k_list"
    and "\<exists>probs. predict_proba clf X = Inr probs \<and>
           (\<forall>i < length top_k_list.
              out ! i =
                map (\<lambda>c. if c \<in> set (slice_from (argsort (probs ! i)) (- (top_k_list ! i)))
                          then 1 else 0)
                  [0..<length (estimators clf)])"
proof -
  show len: "length X = length top_k_list"
    using assms by (auto simp: predict_def split: if_splits)
  obtain probs where probs: "predict_proba clf X = Inr probs"
    and tr: "traverse
               (\<lambda>(i, k). case getitem probs i of
                            Inl e \<Rightarrow> Inl e
                          | Inr prow \<Rightarrow> label_row (classes clf) prow k)
               (enumerate 0 top_k_list) = Inr out"
    using assms by (auto simp: predict_def split: if_splits sum.splits)
  show "length out = length top_k_list"
    using tr by (simp add: traverse_Inr_iff)
  have "out ! i =
          map (\<lambda>c. if c \<in> set (slice_from (argsort (probs ! i)) (- (top_k_list ! i)))
                    then 1 else 0)
            [0..<length (estimators clf)]"
    if i: "i < length top_k_list" for i
  proof -
    have row: "length (probs ! i) = length (estimators clf)" and "i < length probs"
      using predict_proba_shape [OF probs] i len by simp_all
    from tr have "(case enumerate 0 top_k_list ! i of
              (i, k) \<Rightarrow> (case getitem probs i of
                            Inl e \<Rightarrow> Inl e
                          | Inr prow \<Rightarrow> label_row (classes clf) prow k)) = Inr (out ! i)"
      using i unfolding traverse_Inr_iff by simp
    then have "label_row (classes clf) (probs ! i) (top_k_list ! i) = Inr (out ! i)"
      using i \<open>i < length probs\<close> by (simp add: nth_enumerate_eq getitem_def)
    then show ?thesis
      using label_row_range [OF row] by (simp add: classes_def)
  qed
  with probs show "\<exists>probs. predict_proba clf X = Inr probs \<and>
           (\<forall>i < length top_k_list.
              out ! i =
                map (\<lambda>c. if c \<in> set (slice_from (argsort (probs ! i)) (- (top_k_list ! i)))
                          then 1 else 0)
                  [0..<length (estimators clf)])"
    by blast
qed

lemma predict_after_proba:
  assumes "length X = length top_k_list" and probs: "predict_proba clf X = Inr probs"
  shows "\<exists>out. predict clf X top_k_list = Inr out"
proof -
  have "\<exists>out. traverse
               (\<lambda>(i, k). case getitem probs i of
                            Inl e \<Rightarrow> Inl e
                          | Inr prow \<Rightarrow> label_row (classes clf) prow k)
               (enumerate 0 top_k_list) = Inr out"
  proof (intro traverse_total ballI)
    fix p assume pin: "p \<in> set (enumerate 0 top_k_list)"
    obtain i k where p: "p = (i, k)" by (cases p)
    with pin have i: "i < length top_k_list"
      by (simp add: in_set_enumerate_eq)
    have "length (probs ! i) = length (estimators clf)" "i < length probs"
      using predict_proba_shape [OF probs] i assms(1) by simp_all
    then show "\<exists>y. (case p of (i, k) \<Rightarrow> (case getitem probs i of
                            Inl e \<Rightarrow> Inl e
                          | Inr prow \<Rightarrow> label_row (classes clf) prow k)) = Inr y"
      using label_row_range [of "probs ! i" "length (estimators clf)" k]
      by (simp add: p getitem_def classes_def)
  qed
  then show ?thesis using probs assms(1) by (simp add: predict_def)
qed

lemma predict_total:
  assumes "length X = length top_k_list"
    and "\<forall>x \<in> set X. \<forall>e \<in> set (estimators clf). e x \<noteq> None"
  shows "\<exists>out. predict clf X top_k_list = Inr out"
proof -
  have "\<exists>probs. predict_proba clf X = Inr probs"
    unfolding predict_proba_def
    using assms(2)
    by (intro traverse_total ballI) (auto simp: predict_binary_def split: option.splits)
  then show ?thesis
    using predict_after_proba [OF assms(1)] by blast
qed

lemma traverse_Inl:
  "traverse f xs = Inl e \<Longrightarrow> \<exists>x \<in> set xs. f x = Inl e"
  by (induction xs) (auto split: sum.splits)

lemma predict_proba_error:
  "predict_proba clf X = Inl e \<Longrightarrow> e = EstimatorError"
  unfolding predict_proba_def
  by (auto dest!: traverse_Inl simp: predict_binary_def split: option.splits)

lemma positives_indicator:
  assumes "distinct ls" and "set ls \<subseteq> {0..<n}"
  shows "positives (map (\<lambda>c. if c \<in> set ls then 1 else 0) [0..<n]) = length ls"
proof -
  have "positives (map (\<lambda>c. if c \<in> set ls then 1 else 0) [0..<n])
          = length (filter (\<lambda>c. c \<in> set ls) [0..<n])"
    by (simp add: positives_def filter_map comp_def)
  also have "\<dots> = card (set (filter (\<lambda>c. c \<in> set ls) [0..<n]))"
    by (rule distinct_card [symmetric]) simp
  also have "set (filter (\<lambda>c. c \<in> set ls) [0..<n]) = set ls"
    using assms(2) by auto
  also have "card (set ls) = length ls"
    using assms(1) by (simp add: distinct_card)
  finally show ?thesis .
qed

lemma selected_indicator:
  "set ls \<subseteq> {0..<n} \<Longrightarrow>
   selected (map (\<lambda>c. if c \<in> set ls then 1 else 0) [0..<n]) = set ls"
  by (auto simp: selected_def split: if_splits)

lemma length_slice_from:
  "length (slice_from xs (- k)) =
     (if 0 < k then min (length xs) (nat k) else length xs - nat (- k))"
  by (auto simp: slice_from_def)

lemma sorted_suffix_dominates:
  assumes "sorted (map f (ys @ zs))" and "c' \<in> set ys" and "c \<in> set zs"
  shows "f c' \<le> f c"
  using assms by (auto simp: sorted_append)

lemma predict_positives:
  assumes "predict clf X top_k_list = Inr out" and "i < length top_k_list"
  shows "positives (out ! i) =
     (if 0 < top_k_list ! i then min (length (estimators clf)) (nat (top_k_list ! i))
      else length (estimators clf) - nat (- (top_k_list ! i)))"
proof -
  obtain probs where probs: "predict_proba clf X = Inr probs"
    and row: "out ! i =
                map (\<lambda>c. if c \<in> set (slice_from (argsort (probs ! i)) (- (top_k_list ! i)))
                          then 1 else 0)
                  [0..<length (estimators clf)]"
    using predict_rows(3) [OF assms(1)] assms(2) by blast
  have len: "length (probs ! i) = length (estimators clf)"
    using predict_proba_shape(2) [OF probs] predict_rows(1) [OF assms(1)] assms(2) by simp
  have sub: "set (slice_from (argsort (probs ! i)) (- (top_k_list ! i)))
               \<subseteq> {0..<length (estimators clf)}"
    using set_slice_from [of "argsort (probs ! i)"] len by (auto simp: set_argsort)
  have "positives (out ! i) = length (slice_from (argsort (probs ! i)) (- (top_k_list ! i)))"
    unfolding row
    by (rule positives_indicator [OF distinct_slice_from [OF distinct_argsort] sub])
  then show ?thesis
    by (simp only: length_slice_from length_argsort len)
qed

lemma predict_selected:
  assumes "predict clf X top_k_list = Inr out" and "predict_proba clf X = Inr probs"
    and "i < length top_k_list"
  shows "selected (out ! i) = set (slice_from (argsort (probs ! i)) (- (top_k_list ! i)))"
proof -
  have row: "out ! i =
                map (\<lambda>c. if c \<in> set (slice_from (argsort (probs ! i)) (- (top_k_list ! i)))
                          then 1 else 0)
                  [0..<length (estimators clf)]"
    using predict_rows(3) [OF assms(1)] assms(2,3) by auto
  have len: "length (probs ! i) = length (estimators clf)"
    using predict_proba_shape(2) [OF assms(2)] predict_rows(1) [OF assms(1)] assms(3) by simp
  have sub: "set (slice_from (argsort (probs ! i)) (- (top_k_list ! i)))
               \<subseteq> {0..<length (estimators clf)}"
    using set_slice_from [of "argsort (probs ! i)"] len by (auto simp: set_argsort)
  show ?thesis unfolding row by (rule selected_indicator [OF sub])
qed

text \<open>
  The classes that \<open>predict\<close> marks positive are the classes at the high end of the
  ascending probability order: for every count \<open>k\<close>, a class marked positive has a
  predicted probability greater than or equal to that of every class left unmarked in the
  same row.
\<close>

lemma predict_selected_dominate:
  assumes "predict clf X top_k_list = Inr out" and "predict_proba clf X = Inr probs"
    and "i < length top_k_list"
    and "c \<in> selected (out ! i)"
    and "c' < length (estimators clf)" and "c' \<notin> selected (out ! i)"
  shows "probs ! i ! c' \<le> probs ! i ! c"
proof -
  let ?a = "probs ! i"
  let ?top = "slice_from (argsort ?a) (- (top_k_list ! i))"
  have sel: "selected (out ! i) = set ?top"
    by (rule predict_selected [OF assms(1-3)])
  have len: "length ?a = length (estimators clf)"
    using predict_proba_shape(2) [OF assms(2)] predict_rows(1) [OF assms(1)] assms(3) by simp
  obtain ys where split: "argsort ?a = ys @ ?top"
    using slice_from_split by blast
  have "c' \<in> set (argsort ?a)"
    using assms(5) len by (simp add: set_argsort)
  then have "c' \<in> set ys"
    using assms(6) sel split by (metis Un_iff set_append)
  moreover have "c \<in> set ?top"
    using assms(4) sel by simp
  moreover have "sorted (map (\<lambda>j. ?a ! j) (ys @ ?top))"
    using sorted_argsort [of ?a] split by simp
  ultimately show ?thesis
    by (rule sorted_suffix_dominates [where f = "\<lambda>j. ?a ! j" and ys = ys and zs = ?top, rotated])
qed

lemma predict_selected_dominate_example:
  "predict example_clf example_X [1, 2] = Inr [[0, 1, 0], [1, 0, 1]] \<and>
   predict_proba example_clf example_X = Inr [[1/5, 7/10, 1/10], [3/10, 1/10, 3/5]] \<and>
   1 \<in> selected ([[0, 1, 0], [1, 0, 1]] ! 0) \<and>
   0 \<notin> selected ([[0, 1, 0], [1, 0, 1]] ! 0) \<and>
   [[1/5, 7/10, 1/10], [3/10, 1/10, 3/5]] ! 0 ! 0 \<le> ([[1/5, 7/10, 1/10], [3/10, 1/10, 3/5]] ! 0 ! 1 :: rat)"
proof -
  have h1: "predict example_clf example_X [1, 2] = Inr [[0, 1, 0], [1, 0, 1]]"
    by code_simp
  have h2: "predict_proba example_clf example_X = Inr [[1/5, 7/10, 1/10], [3/10, 1/10, 3/5]]"
    by code_simp
  have h3: "0 < length [1, 2 :: int]"
    by simp
  have h4: "1 \<in> selected ([[0, 1, 0], [1, 0, 1]] ! 0)"
    by (simp add: selected_def)
  have h5: "0 < length (estimators example_clf)"
    by (simp add: example_clf_def)
  have h6: "0 \<notin> selected ([[0, 1, 0], [1, 0, 1]] ! 0)"
    by (simp add: selected_def)
  from predict_selected_dominate [OF h1 h2 h3 h4 h5 h6] h1 h2 h4 h6 show ?thesis
    by blast
qed

text \<open>
  Claim C9. \<open>predict\<close> requires the number of test rows to equal the length of the
  top-k list. When the two differ it fails the assertion, whatever the estimators would
  do (the check precedes \<open>predict_proba\<close>); when they agree the assertion never fires:
  the call returns a matrix or the failure of an estimator.
\<close>

theorem predict_assertion:
  "(length X \<noteq> length top_k_list \<longrightarrow> predict clf X top_k_list = Inl AssertionError) \<and>
   (length X = length top_k_list \<longrightarrow> predict clf X top_k_list \<noteq> Inl AssertionError)"
proof (intro conjI impI)
  assume "length X \<noteq> length top_k_list"
  then show "predict clf X top_k_list = Inl AssertionError"
    by (simp add: predict_def)
next
  assume len: "length X = length top_k_list"
  show "predict clf X top_k_list \<noteq> Inl AssertionError"
  proof (cases "predict_proba clf X")
    case (Inl e)
    then have "predict clf X top_k_list = Inl EstimatorError"
      using len predict_proba_error [OF Inl] by (simp add: predict_def)
    then show ?thesis by simp
  next
    case (Inr probs)
    then show ?thesis
      using predict_after_proba [OF len Inr] by auto
  qed
qed

theorem predict_assertion_witness:
  "predict example_clf example_X [1] = Inl AssertionError \<and>
   predict example_clf example_X [1, 2] \<noteq> Inl AssertionError"
proof -
  have h1: "length example_X \<noteq> length [1 :: int]"
    by (simp add: example_X_def)
  have h2: "length example_X = length [1, 2 :: int]"
    by (simp add: example_X_def)
  from predict_assertion [of example_X "[1]" example_clf] h1
    predict_assertion [of example_X "[1, 2]" example_clf] h2
  show ?thesis by blast
qed

text \<open>
  Claim C10. A test row whose count \<open>k\<close> is 0 gets every class marked positive, not
  none: the slice \<open>argsort()[-0:]\<close> is the whole index list.
\<close>

theorem predict_zero_count_marks_all:
  assumes "predict clf X top_k_list = Inr out" and "i < length top_k_list"
    and "top_k_list ! i = 0"
  shows "out ! i = replicate (length (estimators clf)) 1"
proof -
  obtain probs where probs: "predict_proba clf X = Inr probs"
    and row: "out ! i =
                map (\<lambda>c. if c \<in> set (slice_from (argsort (probs ! i)) (- (top_k_list ! i)))
                          then 1 else 0)
                  [0..<length (estimators clf)]"
    using predict_rows(3) [OF assms(1)] assms(2) by blast
  have len: "length (probs ! i) = length (estimators clf)"
    using predict_proba_shape(2) [OF probs] predict_rows(1) [OF assms(1)] assms(2) by simp
  have "set (slice_from (argsort (probs ! i)) (- (top_k_list ! i))) = {0..<length (estimators clf)}"
    using assms(3) len by (simp add: slice_from_zero set_argsort)
  then have "out ! i = map (\<lambda>c. 1) [0..<length (estimators clf)]"
    unfolding row by (simp cong: map_cong)
  then show ?thesis by (simp add: map_replicate_const)
qed


theorem predict_zero_count_marks_all_witness:
  "predict example_clf example_X [0, 2] = Inr [[1, 1, 1], [1, 0, 1]] \<and>
   [[1, 1, 1], [1, 0, 1]] ! 0 = replicate (length (estimators example_clf)) (1 :: int)"
proof -
  have h1: "predict example_clf example_X [0, 2] = Inr [[1, 1, 1], [1, 0, 1]]"
    by code_simp
  have h2: "0 < length [0, 2 :: int]"
    by simp
  have h3: "[0, 2 :: int] ! 0 = 0"
    by simp
  from predict_zero_count_marks_all [OF h1 h2 h3] h1 show ?thesis
    by blast
qed

text \<open>
  Claim C3. The classes marked positive in a test row are to be the \<open>k\<close> classes of
  highest predicted probability. On the row with \<open>k = 0\<close> of the example below the code
  marks the classes 0, 1 and 2, all there are, where the claim requires the empty set. With
  \<open>1 \<le> k\<close> and at most as many as there are classes, the marked classes are \<open>k\<close> in
  number (\<open>predict_positives\<close>) and dominate the unmarked ones
  (\<open>predict_selected_dominate\<close>).
\<close>

theorem predict_selected_at_zero:
  "predict example_clf example_X [0, 2] = Inr [[1, 1, 1], [1, 0, 1]] \<and>
   selected ([[1, 1, 1], [1, 0, 1]] ! 0) = {0, 1, 2}"
proof -
  have "predict example_clf example_X [0, 2] = Inr [[1, 1, 1], [1, 0, 1]]"
    by code_simp
  moreover have "selected ([[1, 1, 1], [1, 0, 1]] ! 0) = {0, 1, 2}"
    by (auto simp: selected_def less_Suc_eq numeral_3_eq_3)
  ultimately show ?thesis ..
qed

text \<open>
  Claim C1. Every test row is to get exactly \<open>k\<close> classes marked positive. On the row
  with \<open>k = 0\<close> of the example below the code marks all three classes, so the count is 3
  where the claim requires 0.
\<close>

theorem predict_count_at_zero:
  "predict example_clf example_X [0, 2] = Inr [[1, 1, 1], [1, 0, 1]] \<and>
   positives ([[1, 1, 1], [1, 0, 1]] ! 0) = 3"
  by code_simp

section \<open>Properties of the label matrix construction\<close>

lemma length_fold_assign_one [simp]:
  "length (fold (\<lambda>p M. assign_one M p) ps M) = length M"
  by (induction ps arbitrary: M) (auto simp: assign_one_def)

lemma fold_assign_one_nth:
  assumes "distinct (map fst ps)" and "i < length M"
  shows "fold (\<lambda>p M. assign_one M p) ps M ! i =
           (case map_of ps i of None \<Rightarrow> M ! i | Some c \<Rightarrow> (M ! i)[c := 1])"
  using assms
proof (induction ps arbitrary: M)
  case Nil
  then show ?case by simp
next
  case (Cons p ps)
  obtain j c where p: "p = (j, c)" by (cases p)
  have notin: "j \<notin> fst ` set ps" and dist: "distinct (map fst ps)"
    using Cons.prems(1) p by auto
  have len: "i < length (assign_one M p)"
    using Cons.prems(2) by (simp add: assign_one_def p)
  have step: "fold (\<lambda>p M. assign_one M p) (p # ps) M ! i =
           (case map_of ps i of None \<Rightarrow> assign_one M p ! i
            | Some c \<Rightarrow> (assign_one M p ! i)[c := 1])"
    using Cons.IH [OF dist len] by simp
  show ?case
  proof (cases "i = j")
    case True
    then have none: "map_of ps i = None"
      using notin by (simp add: map_of_eq_None_iff)
    have "assign_one M p ! i = (M ! i)[c := 1]"
      using True Cons.prems(2) by (simp add: p assign_one_def)
    then show ?thesis
      unfolding step using none True by (simp add: p)
  next
    case False
    then have "assign_one M p ! i = M ! i"
      by (simp add: p assign_one_def)
    then show ?thesis
      unfolding step using False by (simp add: p split: option.splits)
  qed
qed

lemma wrap_index_in_range:
  "0 \<le> j \<Longrightarrow> j < int n \<Longrightarrow> wrap_index n j = Inr (nat j)"
  by (simp add: wrap_index_def)

lemma one_hot_matrix_rows:
  assumes "\<forall>i < length y. 0 \<le> y ! i \<and> y ! i < int n_classes"
  shows "one_hot_matrix n_classes y =
           Inr (map (\<lambda>c. (replicate n_classes 0)[nat c := 1]) y)"
proof -
  have tr: "traverse (wrap_index n_classes) y = Inr (map nat y)"
    using assms by (intro traverse_map) (auto simp: wrap_index_in_range in_set_conv_nth)
  let ?ps = "zip [0..<length y] (map nat y)"
  let ?M = "fold (\<lambda>p M. assign_one M p) ?ps (zeros (length y) n_classes)"
  have "?M = map (\<lambda>c. (replicate n_classes 0)[nat c := 1]) y"
  proof (rule nth_equalityI)
    show "length ?M = length (map (\<lambda>c. (replicate n_classes 0)[nat c := 1]) y)"
      by (simp add: zeros_def)
  next
    fix i assume "i < length ?M"
    then have i: "i < length y" by (simp add: zeros_def)
    have "map_of ?ps ([0..<length y] ! i) = Some (map nat y ! i)"
      using i by (intro map_of_zip_nth) simp_all
    then have "map_of ?ps i = Some (nat (y ! i))"
      using i by simp
    moreover have "distinct (map fst ?ps)" by simp
    moreover have "i < length (zeros (length y) n_classes :: int list list)"
      using i by (simp add: zeros_def)
    ultimately have "?M ! i = ((zeros (length y) n_classes) ! i)[nat (y ! i) := 1]"
      by (simp add: fold_assign_one_nth)
    then show "?M ! i = map (\<lambda>c. (replicate n_classes 0)[nat c := 1]) y ! i"
      using i by (simp add: zeros_def)
  qed
  then show ?thesis
    by (simp add: one_hot_matrix_def tr)
qed

text \<open>
  Claim C5. In the single-label case, with every class index in range, the builder returns
  a matrix with one row per node and one column per class, in which row \<open>i\<close> has a 1 in
  the column of the class of node \<open>i\<close> and 0 everywhere else.
\<close>

theorem one_hot_label_matrix:
  assumes "\<forall>i < length y. 0 \<le> y ! i \<and> y ! i < int n_classes"
  shows "\<exists>d. init_labels (SingleLabel y n_classes) = Inr d \<and>
           num_nodes d = length y \<and> num_classes d = n_classes \<and>
           length (label_matrix d) = length y \<and>
           (\<forall>i < length y. length (label_matrix d ! i) = n_classes \<and>
              (\<forall>j < n_classes. label_matrix d ! i ! j = (if int j = y ! i then 1 else 0)))"
proof -
  let ?M = "map (\<lambda>c. (replicate n_classes (0::int))[nat c := 1]) y"
  let ?d = "\<lparr>num_nodes = length y, num_classes = n_classes, label_matrix = ?M\<rparr>"
  have "init_labels (SingleLabel y n_classes) = Inr ?d"
    by (simp add: init_labels_def one_hot_matrix_rows [OF assms])
  moreover have "length (?M ! i) = n_classes \<and>
      (\<forall>j < n_classes. ?M ! i ! j = (if int j = y ! i then 1 else 0))"
    if "i < length y" for i
    using that assms by (auto simp: nth_list_update)
  ultimately show ?thesis by auto
qed

theorem one_hot_label_matrix_witness:
  "init_labels (SingleLabel [2, 0, 1] 3) =
     Inr \<lparr>num_nodes = 3, num_classes = 3, label_matrix = [[0, 0, 1], [1, 0, 0], [0, 1, 0]]\<rparr>"
proof -
  have h: "\<forall>i < length [2, 0, 1 :: int]. 0 \<le> [2, 0, 1 :: int] ! i \<and> [2, 0, 1 :: int] ! i < int 3"
    by (simp add: less_Suc_eq nth_Cons')
  have e: "init_labels (SingleLabel [2, 0, 1] 3) =
     Inr \<lparr>num_nodes = 3, num_classes = 3, label_matrix = [[0, 0, 1], [1, 0, 0], [0, 1, 0]]\<rparr>"
    by code_simp
  from one_hot_label_matrix [OF h] h e show ?thesis by blast
qed

section \<open>Properties of the embedding alignment\<close>

lemma add_node_props:
  "distinct ns \<Longrightarrow> distinct (add_node ns v)" "set (add_node ns v) = insert v (set ns)"
  by (auto simp: add_node_def)

lemma fold_add_edges:
  "distinct ns \<Longrightarrow>
   distinct (fold (\<lambda>(u, v) ns. add_node (add_node ns u) v) es ns) \<and>
   set (fold (\<lambda>(u, v) ns. add_node (add_node ns u) v) es ns) =
     set ns \<union> fst ` set es \<union> snd ` set es"
proof (induction es arbitrary: ns)
  case Nil
  then show ?case by simp
next
  case (Cons e es)
  obtain u v where e: "e = (u, v)" by (cases e)
  have "distinct (add_node (add_node ns u) v)"
    using Cons.prems by (simp add: add_node_props)
  from Cons.IH [OF this] show ?case
    by (auto simp: e add_node_props)
qed

lemma distinct_graph_nodes: "distinct (graph_nodes es)"
  using fold_add_edges [of "[]" es] by (simp add: graph_nodes_def)

lemma set_graph_nodes: "set (graph_nodes es) = fst ` set es \<union> snd ` set es"
  using fold_add_edges [of "[]" es] by (simp add: graph_nodes_def)

lemma efold_assign_embedding:
  assumes "\<forall>(vid, node) \<in> set ps.
             vid < length embeddings \<and> length (embeddings ! vid) = hidden \<and>
             0 \<le> node \<and> node < int (length F)"
    and "distinct (map snd ps)"
  shows "\<exists>F'. efold (assign_embedding hidden embeddings) ps F = Inr F' \<and>
           length F' = length F \<and>
           (\<forall>(vid, node) \<in> set ps. F' ! nat node = embeddings ! vid) \<and>
           (\<forall>i < length F. int i \<notin> snd ` set ps \<longrightarrow> F' ! i = F ! i)"
  using assms
proof (induction ps arbitrary: F)
  case Nil
  then show ?case by simp
next
  case (Cons p ps)
  obtain vid node where p: "p = (vid, node)" by (cases p)
  let ?F1 = "F[nat node := embeddings ! vid]"
  have hd: "vid < length embeddings" "length (embeddings ! vid) = hidden"
    "0 \<le> node" "node < int (length F)"
    using Cons.prems(1) p by auto
  have step: "assign_embedding hidden embeddings p F = Inr ?F1"
    using hd by (simp add: p assign_embedding_def getitem_def wrap_index_def broadcast_row_def)
  have pre: "\<forall>(vid, node) \<in> set ps.
             vid < length embeddings \<and> length (embeddings ! vid) = hidden \<and>
             0 \<le> node \<and> node < int (length ?F1)"
    using Cons.prems(1) by auto
  have dist: "distinct (map snd ps)" and fresh: "node \<notin> snd ` set ps"
    using Cons.prems(2) p by auto
  from Cons.IH [OF pre dist] obtain F' where
    run: "efold (assign_embedding hidden embeddings) ps ?F1 = Inr F'"
    and len: "length F' = length ?F1"
    and hit: "\<forall>(vid, node) \<in> set ps. F' ! nat node = embeddings ! vid"
    and miss: "\<forall>i < length ?F1. int i \<notin> snd ` set ps \<longrightarrow> F' ! i = ?F1 ! i"
    by blast
  have "efold (assign_embedding hidden embeddings) (p # ps) F = Inr F'"
    using step run by simp
  moreover have "length F' = length F"
    using len by simp
  moreover have "F' ! nat node = embeddings ! vid"
  proof -
    have "nat node < length ?F1" "int (nat node) \<notin> snd ` set ps"
      using hd fresh by simp_all
    then have "F' ! nat node = ?F1 ! nat node"
      using miss by blast
    then show ?thesis using hd by simp
  qed
  moreover have "F' ! i = F ! i" if "i < length F" "int i \<notin> snd ` set (p # ps)" for i
  proof -
    have "i \<noteq> nat node" "int i \<notin> snd ` set ps"
      using that(2) hd(3) by (auto simp: p)
    then show ?thesis using miss that(1) by simp
  qed
  ultimately show ?case
    using hit by (auto simp: p)
qed

text \<open>
  Claim C8. With every edge endpoint a node index in range and one embedding of width
  \<open>hidden_size\<close> per visited node, the alignment returns a matrix of \<open>num_nodes\<close> rows in
  which the row of the node visited at position \<open>vid\<close> is \<open>embeddings[vid]\<close>, whatever the
  visitation order is; a node on no edge is not visited and its row stays all zero.
\<close>

theorem align_embeddings_rows:
  assumes "\<forall>(u, v) \<in> set es. 0 \<le> u \<and> u < int n \<and> 0 \<le> v \<and> v < int n"
    and "length (graph_nodes es) \<le> length embeddings"
    and "\<forall>vid < length (graph_nodes es). length (embeddings ! vid) = hidden"
  shows "\<exists>F. align_embeddings n hidden es embeddings = Inr F \<and> length F = n \<and>
           (\<forall>vid < length (graph_nodes es).
              F ! nat (graph_nodes es ! vid) = embeddings ! vid) \<and>
           (\<forall>i < n. (\<forall>(u, v) \<in> set es. u \<noteq> int i \<and> v \<noteq> int i) \<longrightarrow>
              int i \<notin> set (graph_nodes es) \<and> F ! i = replicate hidden 0)"
proof -
  let ?ns = "graph_nodes es"
  let ?ps = "enumerate 0 ?ns"
  let ?Z = "zeros n hidden :: 'a list list"
  have range: "0 \<le> node \<and> node < int n" if "node \<in> set ?ns" for node
    using that assms(1) by (auto simp: set_graph_nodes)
  have pre: "\<forall>(vid, node) \<in> set ?ps.
               vid < length embeddings \<and> length (embeddings ! vid) = hidden \<and>
               0 \<le> node \<and> node < int (length ?Z)"
  proof (clarify)
    fix vid node assume "(vid, node) \<in> set ?ps"
    then have vid: "vid < length ?ns" and node: "node = ?ns ! vid"
      by (auto simp: in_set_enumerate_eq)
    then have "node \<in> set ?ns" by simp
    then show "vid < length embeddings \<and> length (embeddings ! vid) = hidden \<and>
               0 \<le> node \<and> node < int (length ?Z)"
      using vid assms(2,3) range by (simp add: zeros_def)
  qed
  have dist: "distinct (map snd ?ps)"
    by (simp only: map_snd_enumerate distinct_graph_nodes)
  from efold_assign_embedding [OF pre dist] obtain F where
    run: "efold (assign_embedding hidden embeddings) ?ps ?Z = Inr F"
    and len: "length F = length ?Z"
    and hit: "\<forall>(vid, node) \<in> set ?ps. F ! nat node = embeddings ! vid"
    and miss: "\<forall>i < length ?Z. int i \<notin> snd ` set ?ps \<longrightarrow> F ! i = ?Z ! i"
    by blast
  have "align_embeddings n hidden es embeddings = Inr F"
    using run by (simp add: align_embeddings_def)
  moreover have "length F = n"
    using len by (simp add: zeros_def)
  moreover have "F ! nat (?ns ! vid) = embeddings ! vid" if "vid < length ?ns" for vid
  proof -
    have "(vid, ?ns ! vid) \<in> set ?ps"
      using that by (simp add: in_set_enumerate_eq)
    then show ?thesis using hit by blast
  qed
  moreover have "int i \<notin> set ?ns \<and> F ! i = replicate hidden 0"
    if "i < n" "\<forall>(u, v) \<in> set es. u \<noteq> int i \<and> v \<noteq> int i" for i
  proof -
    have notin: "int i \<notin> set ?ns"
      using that(2) by (auto simp: set_graph_nodes)
    have "snd ` set ?ps = set (map snd ?ps)"
      by (simp only: set_map)
    also have "\<dots> = set ?ns"
      by (simp only: map_snd_enumerate)
    finally have "int i \<notin> snd ` set ?ps"
      using notin by simp
    then have "F ! i = ?Z ! i"
      using miss that(1) by (simp add: zeros_def)
    then show ?thesis
      using notin that(1) by (simp add: zeros_def)
  qed
  ultimately show ?thesis by blast
qed

theorem align_embeddings_rows_witness:
  "graph_nodes [(3, 1), (1, 0), (3, 3), (0, 4)] = [3, 1, 0, 4] \<and>
   align_embeddings 6 2 [(3, 1), (1, 0), (3, 3), (0, 4)] [[1, 2], [3, 4], [5, 6], [7, 8 :: int]] =
     Inr [[5, 6], [3, 4], [0, 0], [1, 2], [7, 8], [0, 0]]"
proof -
  let ?es = "[(3, 1), (1, 0), (3, 3), (0, 4 :: int)]"
  let ?emb = "[[1, 2], [3, 4], [5, 6], [7, 8 :: int]]"
  have nodes: "graph_nodes ?es = [3, 1, 0, 4]"
    by code_simp
  have h1: "\<forall>(u, v) \<in> set ?es. 0 \<le> u \<and> u < int 6 \<and> 0 \<le> v \<and> v < int 6"
    by simp
  have h2: "length (graph_nodes ?es) \<le> length ?emb"
    by (simp add: nodes)
  have h3: "\<forall>vid < length (graph_nodes ?es). length (?emb ! vid) = 2"
    by (simp add: nodes less_Suc_eq nth_Cons')
  have e: "align_embeddings 6 2 ?es ?emb = Inr [[5, 6], [3, 4], [0, 0], [1, 2], [7, 8], [0, 0]]"
    by code_simp
  from align_embeddings_rows [OF h1 h2 h3] h1 nodes e show ?thesis by blast
qed


section \<open>Properties of the oracle label counts\<close>




section \<open>Properties of the shuffles\<close>

lemma skshuffle_Inr:
  assumes "length X = length y" and "set indices \<subseteq> {0..<length X}"
  shows "skshuffle indices X y = Inr (map ((!) X) indices, map ((!) y) indices)"
proof -
  have "traverse (getitem X) indices = Inr (map ((!) X) indices)"
    using assms(2) by (intro traverse_map) (auto simp: getitem_def)
  moreover have "traverse (getitem y) indices = Inr (map ((!) y) indices)"
    using assms by (intro traverse_map) (auto simp: getitem_def)
  ultimately show ?thesis
    using assms(1) by (simp add: skshuffle_def)
qed

lemma zip_conv_map_nth:
  "length X = length y \<Longrightarrow> zip X y = map (\<lambda>i. (X ! i, y ! i)) [0..<length X]"
  by (rule nth_equalityI) simp_all

lemma zip_map_same: "zip (map f xs) (map g xs) = map (\<lambda>i. (f i, g i)) xs"
  by (induction xs) simp_all

lemma mset_shuffled_pairs:
  assumes "length X = length y" and "mset indices = mset [0..<length X]"
  shows "mset (zip (map ((!) X) indices) (map ((!) y) indices)) = mset (zip X y)"
proof -
  have "mset (zip (map ((!) X) indices) (map ((!) y) indices))
          = image_mset (\<lambda>i. (X ! i, y ! i)) (mset indices)"
    by (simp add: zip_map_same)
  also have "\<dots> = image_mset (\<lambda>i. (X ! i, y ! i)) (mset [0..<length X])"
    by (simp only: assms(2))
  also have "\<dots> = mset (zip X y)"
    by (simp only: zip_conv_map_nth [OF assms(1)] mset_map)
  finally show ?thesis .
qed

lemma sort_back:
  assumes "mset indices = mset [0..<length X]"
  shows "map snd (sort_key fst (zip indices (map ((!) X) indices))) = X"
proof -
  let ?g = "\<lambda>i. (i, X ! i)"
  have z: "zip indices (map ((!) X) indices) = map ?g indices"
    using zip_map_same [of "\<lambda>i. i" indices "(!) X"] by simp
  have "sort_key fst (map ?g indices) = map ?g [0..<length X]"
  proof (rule sort_key_inj_key_eq)
    show "mset (map ?g indices) = mset (map ?g [0..<length X])"
      by (simp only: mset_map assms)
    show "inj_on fst (set (map ?g indices))"
      by (auto simp: inj_on_def)
    show "sorted (map fst (map ?g [0..<length X]))"
      by (simp add: comp_def)
  qed
  then have "map snd (sort_key fst (zip indices (map ((!) X) indices))) =
               map snd (map ?g [0..<length X])"
    by (simp only: z)
  also have "\<dots> = X"
    by (simp add: comp_def map_nth)
  finally show ?thesis .
qed

text \<open>
  Claim C6. Each of the \<open>num_shuffle\<close> shuffles indexes the feature rows and the label rows
  with the same permutation, so the pairs of a feature row with its label row are the
  same multiset as before the shuffle, and sorting the shuffled rows by their original
  index gives back both matrices.
\<close>

theorem shuffles_preserve_pairs:
  assumes "length X = length y"
    and "\<forall>j < nat n_shuffle. mset (draw j) = mset [0..<length X]"
  shows "\<exists>shufs. make_shuffles draw X y n_shuffle = Inr shufs \<and>
           length shufs = nat n_shuffle \<and>
           (\<forall>j < nat n_shuffle.
              shufs ! j = (map ((!) X) (draw j), map ((!) y) (draw j)) \<and>
              mset (zip (fst (shufs ! j)) (snd (shufs ! j))) = mset (zip X y) \<and>
              map snd (sort_key fst (zip (draw j) (fst (shufs ! j)))) = X \<and>
              map snd (sort_key fst (zip (draw j) (snd (shufs ! j)))) = y)"
proof -
  let ?sh = "\<lambda>j. (map ((!) X) (draw j), map ((!) y) (draw j))"
  have one: "skshuffle (draw j) X y = Inr (?sh j)" if "j < nat n_shuffle" for j
  proof -
    have "set (draw j) = set [0..<length X]"
      using assms(2) that by (metis mset_eq_setD)
    then show ?thesis
      by (intro skshuffle_Inr [OF assms(1)]) simp
  qed
  then have run: "make_shuffles draw X y n_shuffle = Inr (map ?sh [0..<nat n_shuffle])"
    unfolding make_shuffles_def by (intro traverse_map) simp
  have "mset (zip (fst (?sh j)) (snd (?sh j))) = mset (zip X y) \<and>
        map snd (sort_key fst (zip (draw j) (fst (?sh j)))) = X \<and>
        map snd (sort_key fst (zip (draw j) (snd (?sh j)))) = y"
    if "j < nat n_shuffle" for j
  proof -
    have p: "mset (draw j) = mset [0..<length X]" "mset (draw j) = mset [0..<length y]"
      using assms that by auto
    show ?thesis
      using mset_shuffled_pairs [OF assms(1) p(1)] sort_back [OF p(1)] sort_back [OF p(2)]
      by simp
  qed
  with run show ?thesis by simp
qed

theorem shuffles_preserve_pairs_witness:
  "length example_features = length example_labels \<and>
   make_shuffles example_draw example_features example_labels 2 =
     Inr [([(1/2, 1/4, 1/4), (1/5, 7/10, 1/10), (1/10, 1/5, 7/10), (3/10, 1/10, 3/5)],
           [[0, 1, 0], [0, 1, 0], [0, 0, 1], [1, 0, 1]]),
          ([(3/10, 1/10, 3/5), (1/10, 1/5, 7/10), (1/5, 7/10, 1/10), (1/2, 1/4, 1/4)],
           [[1, 0, 1], [0, 0, 1], [0, 1, 0], [0, 1, 0]])]"
proof -
  have h1: "length example_features = length example_labels"
    by (simp add: example_features_def example_labels_def)
  have h2: "\<forall>j < nat 2. mset (example_draw j) = mset [0..<length example_features]"
    by (simp add: example_draw_def example_features_def less_Suc_eq upt_rec eval_nat_numeral)
  have e: "make_shuffles example_draw example_features example_labels 2 =
     Inr [([(1/2, 1/4, 1/4), (1/5, 7/10, 1/10), (1/10, 1/5, 7/10), (3/10, 1/10, 3/5)],
           [[0, 1, 0], [0, 1, 0], [0, 0, 1], [1, 0, 1]]),
          ([(3/10, 1/10, 3/5), (1/10, 1/5, 7/10), (1/5, 7/10, 1/10), (1/2, 1/4, 1/4)],
           [[1, 0, 1], [0, 0, 1], [0, 1, 0], [0, 1, 0]])]"
    by code_simp
  from shuffles_preserve_pairs [OF h1 h2] h1 h2 e show ?thesis by blast
qed


section \<open>Properties of the training size and the split\<close>

















section \<open>Properties of the aggregation\<close>

















end
